theory Spec2Isabelle
  imports Main "HOL-Library.Word"
begin

unbundle bit_operations_syntax

section \<open>Data model\<close>

text \<open>
  \<^verbatim>\<open>uint256\<close> is an opaque 256-bit value compared bit by bit, \<^verbatim>\<open>uint64_t\<close> and
  \<^verbatim>\<open>size_t\<close> are 64-bit unsigned integers whose arithmetic wraps around. A
  \<^verbatim>\<open>std::vector<uint256>\<close> is a list; its \<^verbatim>\<open>size()\<close> is read as a 64-bit word.
\<close>

type_synonym uint256 = "256 word"
type_synonym uint64 = "64 word"

text \<open>
  The double-SHA256 compression of the 64-byte concatenation of two hashes is not part of
  the sources (\<^verbatim>\<open>crypto/sha256.h\<close>, \<^verbatim>\<open>hash.h\<close>). It is a parameter \<open>H\<close> of every
  function that hashes: \<open>H l r\<close> is the digest of \<open>l\<close> followed by \<open>r\<close>.
\<close>

type_synonym hasher = "uint256 \<Rightarrow> uint256 \<Rightarrow> uint256"

text \<open>
  What ends a call without a result: a failed \<^verbatim>\<open>assert\<close>, a read of a vector past its
  end, and a shift of a 64-bit value by 64 bits or more (both undefined in C++).
\<close>

datatype error = AssertionFailed | IndexOutOfRange | ShiftOutOfRange

definition vector_size :: "'a list \<Rightarrow> uint64" where
  "vector_size v = of_nat (length v)"

section \<open>Hash primitives\<close>

text \<open>
  Modelled from the spec: \<^verbatim>\<open>SHA256D64(out, in, blocks)\<close> is declared in
  \<^verbatim>\<open>crypto/sha256.h\<close>, which is not among the sources. The spec describes its use as
  replacing the sequence "with the pairwise combination hash of each adjacent pair": block
  \<open>i\<close> of the output is the combination of the elements \<open>2 * i\<close> and \<open>2 * i + 1\<close> of the
  input. The call is in place (\<^verbatim>\<open>out = in = hashes[0].begin()\<close>), so the first \<open>blocks\<close>
  elements of the vector are overwritten and the others stay.
\<close>

definition SHA256D64 :: "hasher \<Rightarrow> uint256 list \<Rightarrow> nat \<Rightarrow> uint256 list" where
  "SHA256D64 H hashes blocks =
     map (\<lambda>i. H (hashes ! (2 * i)) (hashes ! (2 * i + 1))) [0..<blocks] @ drop blocks hashes"

text \<open>
  The template \<^verbatim>\<open>Hash(p1begin, p1end, p2begin, p2end)\<close> writes both ranges into one
  \<^verbatim>\<open>CHash256\<close> and finalises: the double-SHA256 of the concatenation. It is called on
  two 32-byte hashes only, so it is the same function of the pair as one block of
  \<^verbatim>\<open>SHA256D64\<close>; both are the parameter \<open>H\<close>.
\<close>

definition Hash :: "hasher \<Rightarrow> uint256 \<Rightarrow> uint256 \<Rightarrow> uint256" where
  "Hash H left right = H left right"

section \<open>ComputeMerkleRoot\<close>

text \<open>
  The inner \<^verbatim>\<open>for\<close> loop: \<^verbatim>\<open>for (pos = 0; pos + 1 < hashes.size(); pos += 2)\<close>.
\<close>

function mutation_scan :: "uint256 list \<Rightarrow> nat \<Rightarrow> bool \<Rightarrow> bool" where
  "mutation_scan hashes pos mutation =
     (if pos + 1 < length hashes
      then mutation_scan hashes (pos + 2)
             (if hashes ! pos = hashes ! (pos + 1) then True else mutation)
      else mutation)"
  by pat_completeness auto
termination
  by (relation "measure (\<lambda>(hashes, pos, mutation). length hashes - pos)") auto

declare mutation_scan.simps [simp del]

text \<open>
  One pass of the \<^verbatim>\<open>while\<close> body after the mutation scan: duplicate the last element of
  an odd-sized vector, hash the pairs in place, shrink the vector to half its size.
\<close>

definition merkle_level :: "hasher \<Rightarrow> uint256 list \<Rightarrow> uint256 list" where
  "merkle_level H hashes =
     (let hashes1 = (if odd (length hashes) then hashes @ [last hashes] else hashes);
          hashes2 = SHA256D64 H hashes1 (length hashes1 div 2)
      in take (length hashes1 div 2) hashes2)"

lemma length_merkle_level [simp]:
  "length (merkle_level H hashes) = (length hashes + 1) div 2"
  by (auto simp: merkle_level_def SHA256D64_def Let_def elim!: oddE)

text \<open>
  The \<^verbatim>\<open>while (hashes.size() > 1)\<close> loop. The pointer \<^verbatim>\<open>bool* mutated\<close> is a
  \<open>bool option\<close>: \<open>None\<close> is \<^verbatim>\<open>nullptr\<close>, \<open>Some b\<close> points to a \<^verbatim>\<open>bool\<close> that holds \<open>b\<close>.
\<close>

function merkle_fold ::
  "hasher \<Rightarrow> uint256 list \<Rightarrow> bool option \<Rightarrow> bool \<Rightarrow> uint256 list \<times> bool" where
  "merkle_fold H hashes mutated mutation =
     (if length hashes > 1
      then merkle_fold H (merkle_level H hashes) mutated
             (if mutated \<noteq> None then mutation_scan hashes 0 mutation else mutation)
      else (hashes, mutation))"
  by pat_completeness auto
termination
  by (relation "measure (\<lambda>(H, hashes, mutated, mutation). length hashes)") auto

declare merkle_fold.simps [simp del]

text \<open>
  The result is the returned root together with the pointee of \<^verbatim>\<open>mutated\<close> after the
  call (\<open>None\<close> when the pointer is null and nothing is written).
\<close>

definition ComputeMerkleRoot ::
  "hasher \<Rightarrow> uint256 list \<Rightarrow> bool option \<Rightarrow> uint256 \<times> bool option" where
  "ComputeMerkleRoot H hashes mutated =
     (let (hashes', mutation) = merkle_fold H hashes mutated False;
          mutated' = (if mutated \<noteq> None then Some mutation else mutated)
      in if length hashes' = 0 then (0, mutated') else (hashes' ! 0, mutated'))"

section \<open>Tree geometry\<close>

text \<open>
  \<^verbatim>\<open>(leaves + ((uint64_t)1 << height) - 1) >> height\<close>, on 64-bit words.
\<close>

definition CalcTreeWidth :: "uint64 \<Rightarrow> uint64 \<Rightarrow> error + uint64" where
  "CalcTreeWidth height leaves =
     (if 64 \<le> unat height then Inl ShiftOutOfRange
      else Inr (drop_bit (unat height) (leaves + push_bit (unat height) 1 - 1)))"

lemma unat_drop_bit_1: "unat (drop_bit 1 (x::uint64)) = unat x div 2"
  by (simp add: drop_bit_eq_div unat_div)

lemma unat_plus_1: "(x::uint64) + 1 \<noteq> 0 \<Longrightarrow> unat (x + 1) = unat x + 1"
  using unatSuc[of x] by (simp add: add.commute)

lemma halve_less: "1 < (leaves::uint64) \<Longrightarrow> drop_bit 1 leaves < leaves"
  unfolding word_less_nat_alt unat_drop_bit_1 by simp

lemma halve_succ_less:
  "1 < (leaves::uint64) \<Longrightarrow> leaves + 1 \<noteq> 0 \<Longrightarrow> drop_bit 1 (leaves + 1) < leaves"
  unfolding word_less_nat_alt unat_drop_bit_1 using unat_plus_1[of leaves] by simp

lemma height_step_less:
  "1 < (leaves::uint64) \<Longrightarrow>
   drop_bit 1 (if leaves AND 1 \<noteq> 0 then leaves + 1 else leaves) < leaves"
proof (cases "leaves + 1 = 0")
  case True
  assume gt: "1 < leaves"
  then have "0 < leaves" by (simp add: word_less_nat_alt)
  with True halve_less[OF gt] show ?thesis by (simp only: drop_bit_of_0 if_split) simp
next
  case False
  assume "1 < leaves"
  with False halve_less[of leaves] halve_succ_less[of leaves] show ?thesis
    by (simp only: if_split) simp
qed

text \<open>
  The loop of \<^verbatim>\<open>CalcTreeHeight\<close>: \<^verbatim>\<open>leaves\<close> is a \<^verbatim>\<open>size_t\<close>, so \<^verbatim>\<open>leaves += 1\<close>
  wraps around at \<open>2 ^ 64\<close>.
\<close>

function height_loop :: "uint64 \<Rightarrow> uint64 \<Rightarrow> uint64" where
  "height_loop leaves height =
     (if 1 < leaves
      then height_loop (drop_bit 1 (if leaves AND 1 \<noteq> 0 then leaves + 1 else leaves))
             (height + 1)
      else height)"
  by pat_completeness auto
termination
proof (relation "measure (\<lambda>(leaves, height). unat leaves)", goal_cases)
  case 1
  show ?case by simp
next
  case (2 leaves height)
  then show ?case
    using height_step_less[of leaves] unfolding word_less_nat_alt
    by (simp only: in_measure prod.case)
qed

declare height_loop.simps [simp del]

definition CalcTreeHeight :: "uint256 list \<Rightarrow> uint64" where
  "CalcTreeHeight hashes = height_loop (vector_size hashes) 0"

section \<open>CalcHash\<close>

text \<open>
  The recursion is on \<^verbatim>\<open>height\<close>; the assertion is checked on every call, the leaf read
  \<^verbatim>\<open>hashs[pos]\<close> is in range only below the size of the vector.
\<close>

function CalcHash :: "hasher \<Rightarrow> uint64 \<Rightarrow> uint64 \<Rightarrow> uint256 list \<Rightarrow> error + uint256" where
  "CalcHash H height pos hashs =
     (let leaves = vector_size hashs in
      if leaves = 0 then Inl AssertionFailed
      else if height = 0 then
        (if unat pos < length hashs then Inr (hashs ! unat pos) else Inl IndexOutOfRange)
      else
        (case CalcHash H (height - 1) (pos * 2) hashs of
           Inl e \<Rightarrow> Inl e
         | Inr left \<Rightarrow>
            (case CalcTreeWidth (height - 1) leaves of
               Inl e \<Rightarrow> Inl e
             | Inr width \<Rightarrow>
                (if pos * 2 + 1 < width
                 then (case CalcHash H (height - 1) (pos * 2 + 1) hashs of
                         Inl e \<Rightarrow> Inl e
                       | Inr right \<Rightarrow> Inr (Hash H left right))
                 else Inr (Hash H left left)))))"
  by pat_completeness auto
termination
  by (relation "measure (\<lambda>(H, height, pos, hashs). unat height)")
     (simp_all add: measure_unat)

declare CalcHash.simps [simp del]

section \<open>findDiffLeaf\<close>

text \<open>
  The loop \<^verbatim>\<open>while (--height)\<close>: the decrement comes first and wraps around at zero;
  the body runs while the decremented height is not zero. The loop returns the height and
  the index it ends with. The two \<^verbatim>\<open>CalcHash\<close> calls of the comparison are evaluated
  from left to right.
\<close>

function descend ::
  "hasher \<Rightarrow> uint64 \<Rightarrow> uint64 \<Rightarrow> uint256 list \<Rightarrow> uint256 list \<Rightarrow> error + (uint64 \<times> uint64)" where
  "descend H height index hashs1 hashs2 =
     (let height' = height - 1 in
      if height' \<noteq> 0 then
        (case CalcHash H height' index hashs1 of
           Inl e \<Rightarrow> Inl e
         | Inr h1 \<Rightarrow>
            (case CalcHash H height' index hashs2 of
               Inl e \<Rightarrow> Inl e
             | Inr h2 \<Rightarrow>
                descend H height' (if h1 \<noteq> h2 then index * 2 else index * 2 + 2)
                  hashs1 hashs2))
      else Inr (height', index))"
  by pat_completeness auto
termination
proof (relation "measure (\<lambda>(H, height, index, hashs1, hashs2). unat (height - 1))", goal_cases)
  case 1
  show ?case by simp
next
  case (2 H height index hashs1 hashs2 height' h1 h2)
  then have "height - 1 \<noteq> 0" by simp
  then have "unat (height - 1 - 1) < unat (height - 1)" by (rule measure_unat)
  with 2 show ?case by (simp only: in_measure prod.case)
qed

declare descend.simps [simp del]

text \<open>
  \<^verbatim>\<open>bool dummy\<close> is passed by address to both root computations, which only write it.
\<close>

definition findDiffLeaf :: "hasher \<Rightarrow> uint256 list \<Rightarrow> uint256 list \<Rightarrow> error + uint64" where
  "findDiffLeaf H hashs1 hashs2 =
     (let index = 0 in
      if fst (ComputeMerkleRoot H hashs1 (Some False)) = fst (ComputeMerkleRoot H hashs2 (Some False))
      then Inr index
      else
        (let height = CalcTreeHeight hashs1;
             height2 = CalcTreeHeight hashs2
         in if height \<noteq> height2 then Inl AssertionFailed
            else
              (case descend H height index hashs1 hashs2 of
                 Inl e \<Rightarrow> Inl e
               | Inr (height', index') \<Rightarrow>
                  (if height' = 0 then
                     (case CalcHash H height' index' hashs1 of
                        Inl e \<Rightarrow> Inl e
                      | Inr h1 \<Rightarrow>
                         (case CalcHash H height' index' hashs2 of
                            Inl e \<Rightarrow> Inl e
                          | Inr h2 \<Rightarrow> Inr (if h1 = h2 then index' + 1 else index')))
                   else Inr index'))))"

section \<open>Arithmetic over the naturals\<close>

text \<open>
  The geometry and the positional hasher once more, over unbounded naturals and without
  failures. They are what the 64-bit code computes as long as nothing wraps around, and the
  lemmas below relate the two.
\<close>

fun height_nat :: "nat \<Rightarrow> nat" where
  "height_nat n = (if 1 < n then Suc (height_nat ((n + 1) div 2)) else 0)"

declare height_nat.simps [simp del]

definition width_nat :: "nat \<Rightarrow> nat \<Rightarrow> nat" where
  "width_nat h n = (n + 2 ^ h - 1) div 2 ^ h"

fun node_hash :: "hasher \<Rightarrow> nat \<Rightarrow> nat \<Rightarrow> uint256 list \<Rightarrow> uint256" where
  "node_hash H 0 i xs = xs ! i"
| "node_hash H (Suc h) i xs =
     (let l = node_hash H h (2 * i) xs in
      if 2 * i + 1 < width_nat h (length xs) then H l (node_hash H h (2 * i + 1) xs)
      else H l l)"

text \<open>A sample combiner, to run the definitions on concrete inputs.\<close>

definition sample_hash :: hasher where
  "sample_hash l r = 31 * l + r + 7"

text \<open>
  Collisions of the hash are outside the code: the source comment itself argues "assuming
  no double-SHA256 collisions". The pairs that one pass of the loop hands to the hash, the
  pairs of a whole run of \<^verbatim>\<open>ComputeMerkleRoot\<close>, and what it means for the hash not to
  collide on a list of pairs.
\<close>

definition level_pairs :: "uint256 list \<Rightarrow> (uint256 \<times> uint256) list" where
  "level_pairs hashes =
     (let hashes1 = (if odd (length hashes) then hashes @ [last hashes] else hashes)
      in map (\<lambda>i. (hashes1 ! (2 * i), hashes1 ! (2 * i + 1))) [0..<length hashes1 div 2])"

function hashed_pairs :: "hasher \<Rightarrow> uint256 list \<Rightarrow> (uint256 \<times> uint256) list" where
  "hashed_pairs H hashes =
     (if length hashes > 1
      then level_pairs hashes @ hashed_pairs H (merkle_level H hashes)
      else [])"
  by pat_completeness auto
termination
  by (relation "measure (\<lambda>(H, hashes). length hashes)") auto

declare hashed_pairs.simps [simp del]

definition collision_free :: "hasher \<Rightarrow> (uint256 \<times> uint256) list \<Rightarrow> bool" where
  "collision_free H ps =
     (\<forall>p \<in> set ps. \<forall>q \<in> set ps. H (fst p) (snd p) = H (fst q) (snd q) \<longrightarrow> p = q)"

section \<open>Words and naturals\<close>

lemma unat_of_nat64: "n < 2 ^ 64 \<Longrightarrow> unat (of_nat n :: uint64) = n"
  by (simp add: unat_of_nat)

lemma odd_word_unat: "(x::uint64) AND 1 \<noteq> 0 \<longleftrightarrow> odd (unat x)"
proof -
  have "x AND 1 = x mod 2" by (rule and_one_eq)
  moreover have "(x mod 2 = 0) = (unat (x mod 2) = 0)" by (simp add: unat_eq_zero)
  moreover have "unat (x mod 2) = unat x mod 2" by (simp add: unat_mod)
  ultimately show ?thesis by (simp add: odd_iff_mod_2_eq_one)
qed

lemma height_step_unat:
  assumes "unat (leaves::uint64) \<le> 2 ^ 63"
  shows "unat (drop_bit 1 (if leaves AND 1 \<noteq> 0 then leaves + 1 else leaves)) = (unat leaves + 1) div 2"
proof (cases "odd (unat leaves)")
  case True
  have "unat leaves + unat (1::uint64) < 2 ^ 64" using assms by simp
  then have "unat (leaves + 1) = unat leaves + 1"
    using unat_add_lem[of leaves 1] by simp
  moreover have "unat (drop_bit 1 (leaves + 1)) = unat (leaves + 1) div 2"
    by (rule unat_drop_bit_1)
  ultimately show ?thesis using True
    by (simp only: odd_word_unat if_True not_False_eq_True simp_thms)
next
  case False
  moreover have "unat leaves div 2 = (unat leaves + 1) div 2" using False by simp
  ultimately show ?thesis by (simp only: odd_word_unat if_False unat_drop_bit_1 simp_thms)
qed

lemma height_loop_nat:
  "unat leaves \<le> 2 ^ 63 \<Longrightarrow> height_loop leaves h = h + of_nat (height_nat (unat leaves))"
proof (induction leaves h rule: height_loop.induct)
  case (1 leaves height)
  show ?case
  proof (cases "1 < leaves")
    case True
    let ?l = "drop_bit 1 (if leaves AND 1 \<noteq> 0 then leaves + 1 else leaves)"
    have u: "unat ?l = (unat leaves + 1) div 2" using 1(2) by (rule height_step_unat)
    have gt: "1 < unat leaves" using True by (simp add: word_less_nat_alt)
    have "unat ?l \<le> 2 ^ 63" unfolding u using 1(2) by simp
    from 1(1)[OF True this] have "height_loop ?l (height + 1) = height + 1 + of_nat (height_nat ((unat leaves + 1) div 2))"
      unfolding u .
    moreover have "height_loop leaves height = height_loop ?l (height + 1)"
      using True by (subst height_loop.simps) simp
    moreover have "height_nat (unat leaves) = Suc (height_nat ((unat leaves + 1) div 2))"
      using gt by (subst height_nat.simps) simp
    ultimately show ?thesis by simp
  next
    case False
    then have "\<not> 1 < unat leaves" by (simp add: word_less_nat_alt)
    then have "height_nat (unat leaves) = 0" by (subst height_nat.simps) simp
    moreover have "height_loop leaves height = height" using False by (subst height_loop.simps) simp
    ultimately show ?thesis by simp
  qed
qed

lemma width_less_iff: "i < width_nat h n \<longleftrightarrow> i * 2 ^ h < n"
proof -
  have "i < width_nat h n \<longleftrightarrow> Suc i \<le> (n + 2 ^ h - 1) div 2 ^ h"
    by (simp add: width_nat_def Suc_le_eq)
  also have "\<dots> \<longleftrightarrow> Suc i * 2 ^ h \<le> n + 2 ^ h - 1"
    by (rule less_eq_div_iff_mult_less_eq) simp
  also have "\<dots> \<longleftrightarrow> i * 2 ^ h < n"
  proof -
    define k :: nat where "k = 2 ^ h"
    have "1 \<le> k" by (simp add: k_def)
    then have "(k + i * k \<le> n + k - 1) = (i * k < n)" by arith
    then show ?thesis by (simp add: k_def)
  qed
  finally show ?thesis .
qed

lemma width_nat_0: "width_nat 0 n = n"
  by (simp add: width_nat_def)

lemma height_nat_upper: "1 \<le> n \<Longrightarrow> n \<le> 2 ^ height_nat n"
proof (induction n rule: height_nat.induct)
  case (1 n)
  show ?case
  proof (cases "1 < n")
    case True
    then have "(n + 1) div 2 \<le> 2 ^ height_nat ((n + 1) div 2)" using 1(1) by simp
    moreover have "height_nat n = Suc (height_nat ((n + 1) div 2))"
      using True by (subst height_nat.simps) simp
    ultimately show ?thesis by simp
  next
    case False
    with 1(2) have "n = 1" by simp
    then show ?thesis by simp
  qed
qed

lemma height_nat_lower: "2 \<le> n \<Longrightarrow> 2 ^ (height_nat n - 1) < n"
proof (induction n rule: height_nat.induct)
  case (1 n)
  have gt: "1 < n" using 1(2) by simp
  have eq: "height_nat n = Suc (height_nat ((n + 1) div 2))"
    using gt by (subst height_nat.simps) simp
  show ?case
  proof (cases "2 \<le> (n + 1) div 2")
    case True
    from 1(1)[OF gt True] have "2 ^ (height_nat ((n + 1) div 2) - 1) < (n + 1) div 2" .
    moreover have "0 < height_nat ((n + 1) div 2)"
      using True by (subst height_nat.simps) simp
    ultimately have "2 ^ height_nat ((n + 1) div 2) < 2 * ((n + 1) div 2)"
      by (cases "height_nat ((n + 1) div 2)") simp_all
    then have "2 ^ height_nat ((n + 1) div 2) < n + 1" by simp
    moreover have "even ((2::nat) ^ height_nat ((n + 1) div 2))"
      using \<open>0 < height_nat ((n + 1) div 2)\<close> by simp
    ultimately have "2 ^ height_nat ((n + 1) div 2) < n"
    proof -
      have "2 * 2 ^ (height_nat ((n + 1) div 2) - 1) < 2 * ((n + 1) div 2)"
        using \<open>2 ^ (height_nat ((n + 1) div 2) - 1) < (n + 1) div 2\<close> by simp
      then have "2 * 2 ^ (height_nat ((n + 1) div 2) - 1) + 2 \<le> 2 * ((n + 1) div 2)" by arith
      then have "2 * 2 ^ (height_nat ((n + 1) div 2) - 1) + 2 \<le> n + 1" by arith
      moreover have "2 * 2 ^ (height_nat ((n + 1) div 2) - 1) = (2::nat) ^ height_nat ((n + 1) div 2)"
        using \<open>0 < height_nat ((n + 1) div 2)\<close> by (cases "height_nat ((n + 1) div 2)") simp_all
      ultimately show ?thesis by simp
    qed
    then show ?thesis by (simp add: eq)
  next
    case False
    then have "(n + 1) div 2 \<le> 1" by simp
    then have "height_nat ((n + 1) div 2) = 0" by (subst height_nat.simps) simp
    then show ?thesis using gt by (simp add: eq)
  qed
qed

lemma height_nat_le_63: "n \<le> 2 ^ 63 \<Longrightarrow> height_nat n \<le> 63"
proof (cases "2 \<le> n")
  case True
  assume "n \<le> 2 ^ 63"
  with height_nat_lower[OF True] have "(2::nat) ^ (height_nat n - 1) < 2 ^ 63" by simp
  then have "height_nat n - 1 < 63" by (simp only: power_strict_increasing_iff one_less_numeral_iff semiring_norm)
  then show ?thesis by simp
next
  case False
  then have "height_nat n = 0" by (subst height_nat.simps) simp
  then show ?thesis by simp
qed

lemma width_nat_top: "1 \<le> n \<Longrightarrow> width_nat (height_nat n) n = 1"
proof -
  assume n: "1 \<le> n"
  have "0 < width_nat (height_nat n) n" using n by (simp add: width_less_iff)
  moreover have "\<not> 1 < width_nat (height_nat n) n"
    using height_nat_upper[OF n] by (simp add: width_less_iff)
  ultimately show ?thesis by simp
qed

lemma CalcTreeWidth_nat:
  assumes "h < 64" "n + 2 ^ h - 1 < 2 ^ 64"
  shows "CalcTreeWidth (of_nat h) (of_nat n) = Inr (of_nat (width_nat h n))"
proof -
  have h: "unat (of_nat h :: uint64) = h" using assms(1) by (simp add: unat_of_nat)
  have "(of_nat (n + 2 ^ h - 1) :: uint64) = of_nat (n + 2 ^ h) - of_nat 1"
    by (rule of_nat_diff) (simp add: Suc_le_eq trans_less_add2)
  then have "(of_nat n :: uint64) + push_bit h 1 - 1 = of_nat (n + 2 ^ h - 1)"
    by (simp add: push_bit_eq_mult)
  moreover have "drop_bit h (of_nat (n + 2 ^ h - 1) :: uint64) = of_nat ((n + 2 ^ h - 1) div 2 ^ h)"
  proof -
    have u: "unat (of_nat (n + 2 ^ h - 1) :: uint64) = n + 2 ^ h - 1"
      using assms(2) by (simp add: unat_of_nat)
    have "unat (drop_bit h (of_nat (n + 2 ^ h - 1) :: uint64)) =
          drop_bit h (unat (of_nat (n + 2 ^ h - 1) :: uint64))"
      by (rule unat_drop_bit_eq)
    also have "\<dots> = (n + 2 ^ h - 1) div 2 ^ h"
      unfolding u by (rule drop_bit_eq_div)
    finally have "of_nat (unat (drop_bit h (of_nat (n + 2 ^ h - 1) :: uint64))) =
                  (of_nat ((n + 2 ^ h - 1) div 2 ^ h) :: uint64)"
      by simp
    then show ?thesis by simp
  qed
  ultimately show ?thesis using assms(1) by (simp add: CalcTreeWidth_def h width_nat_def)
qed

lemma width_nat_le: "width_nat h n \<le> n"
proof (rule ccontr)
  assume "\<not> width_nat h n \<le> n"
  then have "n < width_nat h n" by simp
  then have "n * 2 ^ h < n" by (simp only: width_less_iff)
  then show False by simp
qed

lemma width_child: "i < width_nat (Suc h) n \<Longrightarrow> 2 * i < width_nat h n"
  by (simp add: width_less_iff algebra_simps)

lemma vector_size_nonzero: "xs \<noteq> [] \<Longrightarrow> length xs < 2 ^ 64 \<Longrightarrow> vector_size xs \<noteq> 0"
  using of_nat_neq_0[of "length xs", where 'a=64] by (simp add: vector_size_def)

lemma word64_less_of_nat:
  "a < 2 ^ 64 \<Longrightarrow> b < 2 ^ 64 \<Longrightarrow> ((of_nat a :: uint64) < of_nat b) = (a < b)"
  by (simp add: word_less_nat_alt unat_of_nat)

lemma CalcHash_node_hash:
  assumes ne: "xs \<noteq> []" and len: "length xs \<le> 2 ^ 63"
  shows "h \<le> 64 \<Longrightarrow> i < width_nat h (length xs) \<Longrightarrow>
         CalcHash H (of_nat h) (of_nat i) xs = Inr (node_hash H h i xs)"
proof (induction h arbitrary: i)
  case 0
  have lt: "length xs < 2 ^ 64" using len by simp
  have i: "i < length xs" using 0(2) by (simp add: width_nat_0)
  then have "unat (of_nat i :: uint64) = i" using lt by (simp add: unat_of_nat)
  with i vector_size_nonzero[OF ne lt] show ?case
    by (subst CalcHash.simps) (simp add: Let_def)
next
  case (Suc h)
  let ?n = "length xs"
  have lt: "?n < 2 ^ 64" using len by simp
  have h: "h < 64" using Suc(2) by simp
  have nz: "(of_nat (Suc h) :: uint64) \<noteq> 0"
    using of_nat_neq_0[of "Suc h", where 'a=64] h by simp
  have pred: "(of_nat (Suc h) :: uint64) - 1 = of_nat h" by simp
  have left_pos: "(of_nat i :: uint64) * 2 = of_nat (2 * i)" by simp
  have right_pos: "(of_nat (2 * i) :: uint64) + 1 = of_nat (2 * i + 1)" by simp
  have i_lt: "i < ?n" using Suc(3) width_nat_le[of "Suc h" ?n] by simp
  have "(2::nat) ^ h \<le> 2 ^ 63" using h by (simp only: power_increasing_iff one_less_numeral_iff semiring_norm)
  then have room: "?n + 2 ^ h - 1 < 2 ^ 64" using len by simp
  have width: "CalcTreeWidth (of_nat h) (vector_size xs) = Inr (of_nat (width_nat h ?n))"
    unfolding vector_size_def using h room by (rule CalcTreeWidth_nat)
  have w_lt: "width_nat h ?n < 2 ^ 64" using width_nat_le[of h ?n] lt by simp
  have r_lt: "2 * i + 1 < (2::nat) ^ 64" using i_lt len by simp
  have cmp: "((of_nat (2 * i + 1) :: uint64) < of_nat (width_nat h ?n)) = (2 * i + 1 < width_nat h ?n)"
    using r_lt w_lt by (rule word64_less_of_nat)
  have left: "CalcHash H (of_nat h) (of_nat (2 * i)) xs = Inr (node_hash H h (2 * i) xs)"
    using Suc(2,3) by (intro Suc.IH width_child) simp_all
  have right: "CalcHash H (of_nat h) (of_nat (2 * i + 1)) xs = Inr (node_hash H h (2 * i + 1) xs)"
    if "2 * i + 1 < width_nat h ?n"
    using Suc(2) that by (intro Suc.IH) simp_all
  show ?case
  proof (cases "2 * i + 1 < width_nat h ?n")
    case True
    show ?thesis
      by (subst CalcHash.simps)
         (simp only: Let_def vector_size_nonzero[OF ne lt] nz pred left_pos right_pos left width
            cmp True right[OF True] if_False if_True sum.case Hash_def node_hash.simps)
  next
    case False
    show ?thesis
      by (subst CalcHash.simps)
         (simp only: Let_def vector_size_nonzero[OF ne lt] nz pred left_pos right_pos left width
            cmp False if_False sum.case Hash_def node_hash.simps)
  qed
qed

lemma unat_vector_size: "length xs < 2 ^ 64 \<Longrightarrow> unat (vector_size xs) = length xs"
  by (simp add: vector_size_def unat_of_nat)

lemma CalcTreeHeight_nat:
  assumes "length hashes \<le> 2 ^ 63"
  shows "CalcTreeHeight hashes = of_nat (height_nat (length hashes))"
proof -
  have u: "unat (vector_size hashes) = length hashes" using assms by (simp add: unat_vector_size)
  then have "unat (vector_size hashes) \<le> 2 ^ 63" using assms by simp
  from height_loop_nat[OF this, of 0] show ?thesis by (simp add: CalcTreeHeight_def u)
qed

lemma CalcHash_never_asserts:
  "vector_size hashs \<noteq> 0 \<Longrightarrow> CalcHash H height pos hashs \<noteq> Inl AssertionFailed"
proof (induction H height pos hashs rule: CalcHash.induct)
  case (1 H height pos hashs)
  show ?case
  proof (cases "height = 0")
    case True
    with 1(3) show ?thesis by (subst CalcHash.simps) (simp add: Let_def)
  next
    case False
    have l: "CalcHash H (height - 1) (pos * 2) hashs \<noteq> Inl AssertionFailed"
      using 1(1)[OF refl 1(3) False 1(3)] .
    have r: "CalcHash H (height - 1) (pos * 2 + 1) hashs \<noteq> Inl AssertionFailed"
      if "CalcHash H (height - 1) (pos * 2) hashs = Inr left"
         "CalcTreeWidth (height - 1) (vector_size hashs) = Inr w" "pos * 2 + 1 < w" for left w
      using 1(2)[OF refl 1(3) False that 1(3)] .
    show ?thesis
    proof (cases "CalcHash H (height - 1) (pos * 2) hashs")
      case (Inl e)
      with l 1(3) False show ?thesis by (subst CalcHash.simps) (simp add: Let_def)
    next
      case left: (Inr left)
      show ?thesis
      proof (cases "CalcTreeWidth (height - 1) (vector_size hashs)")
        case (Inl e)
        then have "e = ShiftOutOfRange" by (simp add: CalcTreeWidth_def split: if_splits)
        with Inl left 1(3) False show ?thesis by (subst CalcHash.simps) (simp add: Let_def)
      next
        case w: (Inr w)
        show ?thesis
        proof (cases "pos * 2 + 1 < w")
          case True
          from r[OF left w True] left w True 1(3) False show ?thesis
            by (subst CalcHash.simps) (auto simp: Let_def split: sum.splits)
        next
          case False
          with left w 1(3) \<open>height \<noteq> 0\<close> show ?thesis
            by (subst CalcHash.simps) (simp add: Let_def)
        qed
      qed
    qed
  qed
qed

lemma nat_eq_by_less: "(\<And>i::nat. (i < a) = (i < b)) \<Longrightarrow> a = b"
proof (rule ccontr)
  assume h: "\<And>i::nat. (i < a) = (i < b)" and "a \<noteq> b"
  then consider "a < b" | "b < a" by arith
  then show False
  proof cases
    case 1
    with h[of a] show False by simp
  next
    case 2
    with h[of b] show False by simp
  qed
qed

lemma width_nat_Suc: "width_nat (Suc h) n = width_nat h ((n + 1) div 2)"
proof (rule nat_eq_by_less)
  fix i
  have "(i * 2 ^ h < (n + 1) div 2) = (2 * (i * 2 ^ h) < n)" by arith
  then show "(i < width_nat (Suc h) n) = (i < width_nat h ((n + 1) div 2))"
    by (simp add: width_less_iff algebra_simps)
qed

lemma hashed_pairs_nth:
  "i < length p div 2 \<Longrightarrow>
   take (length p div 2) (SHA256D64 H p (length p div 2)) ! i = H (p ! (2 * i)) (p ! (2 * i + 1))"
  by (simp add: SHA256D64_def nth_append)

lemma merkle_level_nth:
  assumes "i < (length xs + 1) div 2"
  shows "merkle_level H xs ! i =
         H (xs ! (2 * i)) (if 2 * i + 1 < length xs then xs ! (2 * i + 1) else xs ! (2 * i))"
proof (cases "odd (length xs)")
  case True
  then obtain k where k: "length xs = 2 * k + 1" by (elim oddE)
  let ?p = "xs @ [last xs]"
  have i: "i < length ?p div 2" using assms k by simp
  have ne: "xs \<noteq> []" using k by auto
  have l: "?p ! (2 * i) = xs ! (2 * i)" using i k by (simp add: nth_append)
  have r: "?p ! (2 * i + 1) = (if 2 * i + 1 < length xs then xs ! (2 * i + 1) else xs ! (2 * i))"
  proof (cases "2 * i + 1 < length xs")
    case True
    then show ?thesis by (simp add: nth_append)
  next
    case False
    then have "i = k" using i k by simp
    then show ?thesis using k ne by (simp add: nth_append last_conv_nth)
  qed
  have "merkle_level H xs = take (length ?p div 2) (SHA256D64 H ?p (length ?p div 2))"
    using True by (simp add: merkle_level_def Let_def)
  then have "merkle_level H xs ! i = H (?p ! (2 * i)) (?p ! (2 * i + 1))"
    using hashed_pairs_nth[OF i, of H] by simp
  then show ?thesis by (simp only: l r)
next
  case False
  then have "even (length xs)" by simp
  then obtain k where k: "length xs = 2 * k" by (elim evenE)
  have i: "i < length xs div 2" using assms k by simp
  then have lt: "2 * i + 1 < length xs" using k by simp
  have "merkle_level H xs = take (length xs div 2) (SHA256D64 H xs (length xs div 2))"
    using False by (simp add: merkle_level_def Let_def)
  then have "merkle_level H xs ! i = H (xs ! (2 * i)) (xs ! (2 * i + 1))"
    using hashed_pairs_nth[OF i, of H] by simp
  then show ?thesis using lt by simp
qed

lemma node_hash_level:
  "i < width_nat (Suc h) (length xs) \<Longrightarrow>
   node_hash H (Suc h) i xs = node_hash H h i (merkle_level H xs)"
proof (induction h arbitrary: i)
  case 0
  then have "i < (length xs + 1) div 2" by (simp add: width_nat_def)
  then show ?case by (simp add: merkle_level_nth width_nat_0 Let_def)
next
  case (Suc h)
  have w: "width_nat (Suc h) (length xs) = width_nat h (length (merkle_level H xs))"
    by (simp add: width_nat_Suc)
  have l: "node_hash H (Suc h) (2 * i) xs = node_hash H h (2 * i) (merkle_level H xs)"
    using Suc.prems by (intro Suc.IH width_child)
  have r: "node_hash H (Suc h) (2 * i + 1) xs = node_hash H h (2 * i + 1) (merkle_level H xs)"
    if "2 * i + 1 < width_nat (Suc h) (length xs)"
    using that by (rule Suc.IH)
  show ?case
  proof (cases "2 * i + 1 < width_nat (Suc h) (length xs)")
    case True
    have "node_hash H (Suc (Suc h)) i xs =
          H (node_hash H (Suc h) (2 * i) xs) (node_hash H (Suc h) (2 * i + 1) xs)"
      using True by (simp add: Let_def del: node_hash.simps(2)) (simp add: node_hash.simps(2)[of H "Suc h"] Let_def)
    also have "\<dots> = H (node_hash H h (2 * i) (merkle_level H xs)) (node_hash H h (2 * i + 1) (merkle_level H xs))"
      by (simp only: l r[OF True])
    also have "\<dots> = node_hash H (Suc h) i (merkle_level H xs)"
      using True by (simp add: node_hash.simps(2)[of H h] Let_def w del: node_hash.simps(2) length_merkle_level)
    finally show ?thesis .
  next
    case False
    have "node_hash H (Suc (Suc h)) i xs =
          H (node_hash H (Suc h) (2 * i) xs) (node_hash H (Suc h) (2 * i) xs)"
      using False by (simp add: node_hash.simps(2)[of H "Suc h"] Let_def del: node_hash.simps(2))
    also have "\<dots> = H (node_hash H h (2 * i) (merkle_level H xs)) (node_hash H h (2 * i) (merkle_level H xs))"
      by (simp only: l)
    also have "\<dots> = node_hash H (Suc h) i (merkle_level H xs)"
      using False by (simp add: node_hash.simps(2)[of H h] Let_def w del: node_hash.simps(2) length_merkle_level)
    finally show ?thesis .
  qed
qed

lemma merkle_fold_root:
  "hashes \<noteq> [] \<Longrightarrow>
   fst (merkle_fold H hashes mutated mutation) = [node_hash H (height_nat (length hashes)) 0 hashes]"
proof (induction H hashes mutated mutation rule: merkle_fold.induct)
  case (1 H hashes mutated mutation)
  show ?case
  proof (cases "1 < length hashes")
    case True
    let ?next = "merkle_level H hashes"
    let ?m = "if mutated \<noteq> None then mutation_scan hashes 0 mutation else mutation"
    have ne: "?next \<noteq> []" using True by (simp flip: length_greater_0_conv)
    have h: "height_nat (length hashes) = Suc (height_nat (length ?next))"
      using True by (subst height_nat.simps) simp
    have "fst (merkle_fold H hashes mutated mutation) = fst (merkle_fold H ?next mutated ?m)"
      using True by (subst merkle_fold.simps) simp
    also have "\<dots> = [node_hash H (height_nat (length ?next)) 0 ?next]"
      using True ne by (intro 1) auto
    also have "node_hash H (height_nat (length ?next)) 0 ?next =
               node_hash H (Suc (height_nat (length ?next))) 0 hashes"
      using 1(2) by (intro node_hash_level[symmetric]) (simp add: width_less_iff)
    finally show ?thesis by (simp only: h)
  next
    case False
    with 1(2) have "length hashes = 1" by (cases hashes) simp_all
    then obtain x where x: "hashes = [x]" by (cases hashes) simp_all
    have "height_nat (length hashes) = 0" using x by (subst height_nat.simps) simp
    then show ?thesis using x by (subst merkle_fold.simps) simp
  qed
qed

lemma collision_free_subset:
  "collision_free H ps \<Longrightarrow> set qs \<subseteq> set ps \<Longrightarrow> collision_free H qs"
  unfolding collision_free_def by blast

lemma collision_free_inj:
  "collision_free H ps \<Longrightarrow> inj_on (\<lambda>p. H (fst p) (snd p)) (set ps)"
  unfolding collision_free_def inj_on_def by blast

lemma merkle_level_pairs:
  "merkle_level H hashes = map (\<lambda>p. H (fst p) (snd p)) (level_pairs hashes)"
  by (simp add: merkle_level_def level_pairs_def SHA256D64_def Let_def)

lemma level_pairs_fst:
  "map fst (level_pairs hashes) = map (\<lambda>i. hashes ! (2 * i)) [0..<(length hashes + 1) div 2]"
proof (cases "odd (length hashes)")
  case True
  then obtain k where k: "length hashes = 2 * k + 1" by (elim oddE)
  have "map (\<lambda>i. (hashes @ [last hashes]) ! (2 * i)) [0..<k + 1] = map (\<lambda>i. hashes ! (2 * i)) [0..<k + 1]"
    by (rule map_cong) (auto simp: nth_append k)
  then show ?thesis using True k by (simp add: level_pairs_def Let_def comp_def del: upt_Suc)
next
  case False
  then have "even (length hashes)" by simp
  then obtain k where k: "length hashes = 2 * k" by (elim evenE)
  then show ?thesis using False by (simp add: level_pairs_def Let_def comp_def)
qed

lemma distinct_level_pairs: "distinct hashes \<Longrightarrow> distinct (level_pairs hashes)"
proof -
  assume d: "distinct hashes"
  have "inj_on (\<lambda>i. hashes ! (2 * i)) (set [0..<(length hashes + 1) div 2])"
  proof (rule inj_onI)
    fix i j
    assume "i \<in> set [0..<(length hashes + 1) div 2]" "j \<in> set [0..<(length hashes + 1) div 2]"
      and eq: "hashes ! (2 * i) = hashes ! (2 * j)"
    then have "2 * i < length hashes" "2 * j < length hashes" by auto
    with d eq have "2 * i = 2 * j" by (simp add: nth_eq_iff_index_eq)
    then show "i = j" by simp
  qed
  then have "distinct (map fst (level_pairs hashes))"
    unfolding level_pairs_fst by (simp add: distinct_map)
  then show ?thesis by (rule distinct_map[THEN iffD1, THEN conjunct1])
qed

lemma distinct_merkle_level:
  "distinct hashes \<Longrightarrow> collision_free H (level_pairs hashes) \<Longrightarrow> distinct (merkle_level H hashes)"
  unfolding merkle_level_pairs
  by (simp add: distinct_map distinct_level_pairs collision_free_inj)

lemma mutation_scan_distinct: "distinct hashes \<Longrightarrow> mutation_scan hashes pos mutation = mutation"
proof (induction hashes pos mutation rule: mutation_scan.induct)
  case (1 hashes pos mutation)
  show ?case
  proof (cases "pos + 1 < length hashes")
    case True
    then have "hashes ! pos \<noteq> hashes ! (pos + 1)"
      using 1(2) by (simp add: nth_eq_iff_index_eq)
    with 1(1)[OF True 1(2)] True show ?thesis by (subst mutation_scan.simps) simp
  next
    case False
    then show ?thesis by (subst mutation_scan.simps) simp
  qed
qed

lemma merkle_fold_distinct:
  "distinct hashes \<Longrightarrow> collision_free H (hashed_pairs H hashes) \<Longrightarrow>
   snd (merkle_fold H hashes mutated mutation) = mutation"
proof (induction H hashes mutated mutation rule: merkle_fold.induct)
  case (1 H hashes mutated mutation)
  show ?case
  proof (cases "1 < length hashes")
    case True
    have hp: "hashed_pairs H hashes = level_pairs hashes @ hashed_pairs H (merkle_level H hashes)"
      using True by (subst hashed_pairs.simps) simp
    have cl: "collision_free H (level_pairs hashes)"
      using 1(3) by (rule collision_free_subset) (simp add: hp)
    have cn: "collision_free H (hashed_pairs H (merkle_level H hashes))"
      using 1(3) by (rule collision_free_subset) (simp add: hp)
    have d: "distinct (merkle_level H hashes)" using 1(2) cl by (rule distinct_merkle_level)
    have "snd (merkle_fold H hashes mutated mutation) =
          snd (merkle_fold H (merkle_level H hashes) mutated
                 (if mutated \<noteq> None then mutation_scan hashes 0 mutation else mutation))"
      using True by (subst merkle_fold.simps) simp
    also have "\<dots> = (if mutated \<noteq> None then mutation_scan hashes 0 mutation else mutation)"
      using True d cn by (rule 1(1))
    also have "\<dots> = mutation" using 1(2) by (simp add: mutation_scan_distinct)
    finally show ?thesis .
  next
    case False
    then show ?thesis by (subst merkle_fold.simps) simp
  qed
qed

lemma ComputeMerkleRoot_distinct:
  "distinct hashes \<Longrightarrow> collision_free H (hashed_pairs H hashes) \<Longrightarrow>
   snd (ComputeMerkleRoot H hashes (Some b)) = Some False"
  using merkle_fold_distinct[of hashes H "Some b" False]
  by (simp add: ComputeMerkleRoot_def split_beta Let_def)

lemma collision_freeD:
  "collision_free H ps \<Longrightarrow> (a, b) \<in> set ps \<Longrightarrow> (c, d) \<in> set ps \<Longrightarrow> H a b = H c d \<Longrightarrow>
   a = c \<and> b = d"
  unfolding collision_free_def by fastforce

lemma hashed_pairs_6:
  "hashed_pairs H [h1, h2, h3, h4, h5, h6] =
     [(h1, h2), (h3, h4), (h5, h6),
      (H h1 h2, H h3 h4), (H h5 h6, H h5 h6),
      (H (H h1 h2) (H h3 h4), H (H h5 h6) (H h5 h6))]"
  by (simp add: hashed_pairs.simps level_pairs_def merkle_level_def SHA256D64_def Let_def)

lemma root_6:
  "fst (ComputeMerkleRoot H [h1, h2, h3, h4, h5, h6] m) =
     H (H (H h1 h2) (H h3 h4)) (H (H h5 h6) (H h5 h6))"
  by (simp add: ComputeMerkleRoot_def merkle_fold.simps merkle_level_def SHA256D64_def Let_def
      split_beta)

lemma root_8:
  "fst (ComputeMerkleRoot H [h1, h2, h3, h4, h5, h6, h7, h8] m) =
     H (H (H h1 h2) (H h3 h4)) (H (H h5 h6) (H h7 h8))"
  by (simp add: ComputeMerkleRoot_def merkle_fold.simps merkle_level_def SHA256D64_def Let_def
      split_beta)

lemma mutation_scan_True: "mutation_scan hashes pos True = True"
proof (induction hashes pos True rule: mutation_scan.induct)
  case (1 hashes pos)
  then show ?case by (subst mutation_scan.simps) simp
qed

lemma merkle_fold_True: "mutated \<noteq> None \<Longrightarrow> snd (merkle_fold H hashes mutated True) = True"
proof (induction H hashes mutated True rule: merkle_fold.induct)
  case (1 H hashes mutated)
  then show ?case by (subst merkle_fold.simps) (simp add: mutation_scan_True)
qed

lemma mutated_repeat:
  "snd (ComputeMerkleRoot H [h1, h2, h3, h4, h5, h6, h5, h6] (Some b)) = Some True"
proof -
  let ?l0 = "[h1, h2, h3, h4, h5, h6, h5, h6]"
  let ?l1 = "[H h1 h2, H h3 h4, H h5 h6, H h5 h6]"
  have l1: "merkle_level H ?l0 = ?l1"
    by (simp add: merkle_level_def SHA256D64_def Let_def)
  have s1: "mutation_scan ?l1 0 m = True" for m
    by (simp add: mutation_scan.simps)
  have "merkle_fold H ?l0 (Some b) False = merkle_fold H ?l1 (Some b) (mutation_scan ?l0 0 False)"
    by (subst merkle_fold.simps) (simp add: l1)
  also have "\<dots> = merkle_fold H (merkle_level H ?l1) (Some b) True"
    by (subst merkle_fold.simps) (simp add: s1)
  finally have "snd (merkle_fold H ?l0 (Some b) False) = True"
    by (simp add: merkle_fold_True)
  then show ?thesis by (simp add: ComputeMerkleRoot_def split_beta Let_def)
qed

lemma list_of_length_8:
  "length xs = 8 \<Longrightarrow> \<exists>x0 x1 x2 x3 x4 x5 x6 x7. xs = [x0, x1, x2, x3, x4, x5, x6, x7]"
  by (simp add: eval_nat_numeral length_Suc_conv) blast

lemma hashed_pairs_8:
  "hashed_pairs H [h1, h2, h3, h4, h5, h6, h7, h8] =
     [(h1, h2), (h3, h4), (h5, h6), (h7, h8),
      (H h1 h2, H h3 h4), (H h5 h6, H h7 h8),
      (H (H h1 h2) (H h3 h4), H (H h5 h6) (H h7 h8))]"
  by (simp add: hashed_pairs.simps level_pairs_def merkle_level_def SHA256D64_def Let_def)

lemma CalcTreeHeight_8: "CalcTreeHeight [h1, h2, h3, h4, h5, h6, h7, h8] = 3"
  by (simp add: CalcTreeHeight_def vector_size_def height_loop.simps)

lemma CalcHash_8_leaf:
  "CalcHash H 0 4 [h1, h2, h3, h4, h5, h6, h7, h8] = Inr h5"
  by (simp add: CalcHash.simps vector_size_def Let_def)

lemma CalcHash_8_pair:
  "CalcHash H 1 2 [h1, h2, h3, h4, h5, h6, h7, h8] = Inr (H h5 h6)"
  by (simp add: CalcHash.simps CalcTreeWidth_def vector_size_def Hash_def Let_def)

lemma CalcHash_8_quad:
  "CalcHash H 2 0 [h1, h2, h3, h4, h5, h6, h7, h8] = Inr (H (H h1 h2) (H h3 h4))"
  by (simp add: CalcHash.simps CalcTreeWidth_def vector_size_def Hash_def Let_def)

lemma findDiffLeaf_8_at_5:
  assumes ne: "a5 \<noteq> b5"
    and cf: "collision_free H (hashed_pairs H [a0, a1, a2, a3, a4, a5, a6, a7] @
                               hashed_pairs H [a0, a1, a2, a3, a4, b5, a6, a7])"
  shows "findDiffLeaf H [a0, a1, a2, a3, a4, a5, a6, a7] [a0, a1, a2, a3, a4, b5, a6, a7] = Inr 5"
proof -
  let ?a = "[a0, a1, a2, a3, a4, a5, a6, a7]"
  let ?b = "[a0, a1, a2, a3, a4, b5, a6, a7]"
  let ?ps = "hashed_pairs H ?a @ hashed_pairs H ?b"
  have n1: "H a4 a5 \<noteq> H a4 b5"
  proof
    assume "H a4 a5 = H a4 b5"
    moreover have "(a4, a5) \<in> set ?ps" "(a4, b5) \<in> set ?ps" by (simp_all add: hashed_pairs_8)
    ultimately have "a5 = b5" using collision_freeD[OF cf] by blast
    with ne show False ..
  qed
  have n2: "H (H a4 a5) (H a6 a7) \<noteq> H (H a4 b5) (H a6 a7)"
  proof
    assume "H (H a4 a5) (H a6 a7) = H (H a4 b5) (H a6 a7)"
    moreover have "(H a4 a5, H a6 a7) \<in> set ?ps" "(H a4 b5, H a6 a7) \<in> set ?ps"
      by (simp_all add: hashed_pairs_8)
    ultimately have "H a4 a5 = H a4 b5" using collision_freeD[OF cf] by blast
    with n1 show False ..
  qed
  have n3: "fst (ComputeMerkleRoot H ?a (Some False)) \<noteq> fst (ComputeMerkleRoot H ?b (Some False))"
  proof
    assume "fst (ComputeMerkleRoot H ?a (Some False)) = fst (ComputeMerkleRoot H ?b (Some False))"
    then have "H (H (H a0 a1) (H a2 a3)) (H (H a4 a5) (H a6 a7)) =
               H (H (H a0 a1) (H a2 a3)) (H (H a4 b5) (H a6 a7))"
      by (simp only: root_8)
    moreover have "(H (H a0 a1) (H a2 a3), H (H a4 a5) (H a6 a7)) \<in> set ?ps"
      "(H (H a0 a1) (H a2 a3), H (H a4 b5) (H a6 a7)) \<in> set ?ps"
      by (simp_all add: hashed_pairs_8)
    ultimately have "H (H a4 a5) (H a6 a7) = H (H a4 b5) (H a6 a7)"
      using collision_freeD[OF cf] by blast
    with n2 show False ..
  qed
  have d1: "descend H 1 4 ?a ?b = Inr (0, 4)"
    by (subst descend.simps) simp
  have d2: "descend H 2 2 ?a ?b = descend H 1 4 ?a ?b"
    using n1 by (subst descend.simps) (simp add: CalcHash_8_pair)
  have d3: "descend H 3 0 ?a ?b = descend H 2 2 ?a ?b"
    by (subst descend.simps) (simp add: CalcHash_8_quad)
  show ?thesis
    using n3 by (simp add: findDiffLeaf_def CalcTreeHeight_8 d3 d2 d1 CalcHash_8_leaf Let_def)
qed

lemma findDiffLeaf_leaf_is_node:
  "CalcTreeHeight [x, y] \<noteq> CalcTreeHeight [H x y] \<and> findDiffLeaf H [x, y] [H x y] = Inr 0"
proof
  show "CalcTreeHeight [x, y] \<noteq> CalcTreeHeight [H x y]"
    by (simp add: CalcTreeHeight_def vector_size_def height_loop.simps)
  have "fst (ComputeMerkleRoot H [x, y] (Some False)) = H x y"
    by (simp add: ComputeMerkleRoot_def merkle_fold.simps merkle_level_def SHA256D64_def Let_def
        split_beta)
  moreover have "fst (ComputeMerkleRoot H [H x y] (Some False)) = H x y"
    by (simp add: ComputeMerkleRoot_def merkle_fold.simps split_beta)
  ultimately show "findDiffLeaf H [x, y] [H x y] = Inr 0"
    by (simp add: findDiffLeaf_def)
qed

lemma CalcHash_single_leaf_too_high:
  "65 + k < 2 ^ 64 \<Longrightarrow> CalcHash H (of_nat (65 + k)) 0 [x] = Inl ShiftOutOfRange"
proof (induction k)
  case 0
  have "CalcHash H (of_nat 64) (of_nat 0) [x] = Inr (node_hash H 64 0 [x])"
    by (rule CalcHash_node_hash) (simp_all add: width_less_iff)
  then have left: "CalcHash H 64 0 [x] = Inr (node_hash H 64 0 [x])" by simp
  have w: "CalcTreeWidth 64 1 = Inl ShiftOutOfRange" by (simp add: CalcTreeWidth_def)
  show ?case
    by (subst CalcHash.simps) (simp add: vector_size_def left w)
next
  case (Suc k)
  have nz: "(of_nat (65 + Suc k) :: uint64) \<noteq> 0"
    using Suc.prems of_nat_neq_0[of "65 + Suc k", where 'a=64] by simp
  have pred: "(of_nat (65 + Suc k) :: uint64) - 1 = of_nat (65 + k)" by simp
  have left: "CalcHash H (of_nat (65 + k)) 0 [x] = Inl ShiftOutOfRange"
    using Suc by simp
  show ?case
    by (subst CalcHash.simps) (simp only: Let_def vector_size_def list.size nz pred left
        mult_zero_left if_False sum.case, simp)
qed

lemma findDiffLeaf_single_leaves:
  assumes "x \<noteq> y"
  shows "findDiffLeaf H [x] [y] = Inl ShiftOutOfRange"
proof -
  have r: "fst (ComputeMerkleRoot H [z] (Some False)) = z" for z
    by (simp add: ComputeMerkleRoot_def merkle_fold.simps split_beta)
  have h: "CalcTreeHeight [z] = 0" for z :: uint256
    by (simp add: CalcTreeHeight_def vector_size_def height_loop.simps)
  have "CalcHash H (of_nat (65 + (2 ^ 64 - 66))) 0 [x] = Inl ShiftOutOfRange"
    by (rule CalcHash_single_leaf_too_high) simp
  moreover have "(of_nat (65 + (2 ^ 64 - 66)) :: uint64) = - 1"
    by (simp add: word_eq_iff_unsigned[where ?'a = nat] unsigned_minus_1_eq_mask mask_eq_exp_minus_1)
  ultimately have c: "CalcHash H (- 1) 0 [x] = Inl ShiftOutOfRange" by (simp only:)
  have d: "descend H 0 0 [x] [y] = Inl ShiftOutOfRange"
    by (subst descend.simps) (simp add: c)
  show ?thesis using assms by (simp add: findDiffLeaf_def r h d)
qed

text \<open>
  Equal heights do not mean equal sizes: with six and seven leaves the descent ends at
  index 6, and the final comparison reads \<^verbatim>\<open>hashs1[6]\<close> past the end of the shorter
  vector.
\<close>

lemma findDiffLeaf_reads_past_end:
  "CalcTreeHeight [1, 2, 3, 4, 5, 6 :: uint256] = CalcTreeHeight [1, 2, 3, 4, 5, 6, 7 :: uint256] \<and>
   findDiffLeaf sample_hash [1, 2, 3, 4, 5, 6] [1, 2, 3, 4, 5, 6, 7] = Inl IndexOutOfRange"
  by (simp add: findDiffLeaf_def ComputeMerkleRoot_def merkle_fold.simps merkle_level_def
      SHA256D64_def mutation_scan.simps CalcTreeHeight_def vector_size_def height_loop.simps
      descend.simps CalcHash.simps CalcTreeWidth_def Hash_def sample_hash_def Let_def)

section \<open>Properties\<close>

text \<open>
  C7. Height and width agree: for a vector of \<open>n \<ge> 1\<close> leaves the width at the height of
  the tree is 1, and the width at height 0 is the leaf count itself. The vector has at most
  \<open>2 ^ 63\<close> elements (a \<^verbatim>\<open>std::vector<uint256>\<close> on a 64-bit machine holds far fewer).
\<close>

theorem CalcTreeWidth_consistent:
  "(1 \<le> length hashes \<and> length hashes \<le> 2 ^ 63 \<longrightarrow>
      CalcTreeWidth (CalcTreeHeight hashes) (vector_size hashes) = Inr 1) \<and>
   CalcTreeWidth 0 n = Inr n"
proof (intro conjI impI)
  assume a: "1 \<le> length hashes \<and> length hashes \<le> 2 ^ 63"
  let ?n = "length hashes"
  have le: "?n \<le> 2 ^ 63" using a by simp
  have h: "height_nat ?n \<le> 63" using le by (rule height_nat_le_63)
  then have "(2::nat) ^ height_nat ?n \<le> 2 ^ 63"
    by (simp only: power_increasing_iff one_less_numeral_iff semiring_norm)
  then have room: "?n + 2 ^ height_nat ?n - 1 < 2 ^ 64" using le by simp
  have "CalcTreeWidth (of_nat (height_nat ?n)) (of_nat ?n) = Inr (of_nat (width_nat (height_nat ?n) ?n))"
    using h room by (intro CalcTreeWidth_nat) simp_all
  then show "CalcTreeWidth (CalcTreeHeight hashes) (vector_size hashes) = Inr 1"
    using a by (simp add: CalcTreeHeight_nat vector_size_def width_nat_top)
next
  show "CalcTreeWidth 0 n = Inr n" by (simp add: CalcTreeWidth_def)
qed

theorem CalcTreeWidth_consistent_witness:
  "1 \<le> length [5, 6, 7 :: uint256] \<and> length [5, 6, 7 :: uint256] \<le> 2 ^ 63 \<and>
   CalcTreeWidth (CalcTreeHeight [5, 6, 7]) (vector_size [5, 6, 7 :: uint256]) = Inr 1 \<and>
   CalcTreeWidth 0 3 = Inr 3"
  using CalcTreeWidth_consistent[of "[5, 6, 7]" 3] by simp

text \<open>
  C8. On the empty vector \<^verbatim>\<open>ComputeMerkleRoot\<close> returns the all-zero hash, and
  \<^verbatim>\<open>*mutated\<close> is false afterwards; with a null pointer nothing is written.
\<close>

theorem ComputeMerkleRoot_empty:
  "ComputeMerkleRoot H [] (Some b) = (0, Some False) \<and> ComputeMerkleRoot H [] None = (0, None)"
  by (simp add: ComputeMerkleRoot_def merkle_fold.simps)

text \<open>
  C9. On the empty vector \<^verbatim>\<open>CalcHash\<close> fails its assertion, whatever the height and the
  position; on a non-empty vector the assertion never fails, at any position.
\<close>

theorem CalcHash_assertion:
  "CalcHash H height pos [] = Inl AssertionFailed \<and>
   (hashs \<noteq> [] \<and> length hashs < 2 ^ 64 \<longrightarrow>
      CalcHash H height pos hashs \<noteq> Inl AssertionFailed)"
proof (intro conjI impI)
  show "CalcHash H height pos [] = Inl AssertionFailed"
    by (subst CalcHash.simps) (simp add: vector_size_def)
next
  assume "hashs \<noteq> [] \<and> length hashs < 2 ^ 64"
  then have "vector_size hashs \<noteq> 0" by (simp add: vector_size_nonzero)
  then show "CalcHash H height pos hashs \<noteq> Inl AssertionFailed"
    by (rule CalcHash_never_asserts)
qed

theorem CalcHash_assertion_witness:
  "CalcHash sample_hash 2 0 [] = Inl AssertionFailed \<and>
   [1, 2, 3 :: uint256] \<noteq> [] \<and> length [1, 2, 3 :: uint256] < 2 ^ 64 \<and>
   CalcHash sample_hash 2 0 [1, 2, 3] \<noteq> Inl AssertionFailed"
  using CalcHash_assertion[of sample_hash 2 0 "[1, 2, 3]"] by simp

text \<open>
  C10. On a non-empty vector, at a height up to the height of the tree and a position below
  the width of that level, \<^verbatim>\<open>CalcHash\<close> returns a hash: no leaf is read past the end of
  the vector (such a read ends the call with \<open>IndexOutOfRange\<close>), no assertion fails and no
  shift is out of range.
\<close>

theorem CalcHash_in_bounds:
  assumes "hashs \<noteq> []" and "length hashs \<le> 2 ^ 63"
    and "height \<le> CalcTreeHeight hashs"
    and "CalcTreeWidth height (vector_size hashs) = Inr width" and "pos < width"
  shows "\<exists>v. CalcHash H height pos hashs = Inr v"
proof -
  let ?n = "length hashs"
  have hn: "height_nat ?n \<le> 63" using assms(2) by (rule height_nat_le_63)
  have "unat (CalcTreeHeight hashs) = height_nat ?n"
    using hn by (simp add: CalcTreeHeight_nat[OF assms(2)] unat_of_nat)
  with assms(3) have h: "unat height \<le> 63" using hn by (simp add: word_le_nat_alt)
  then have "(2::nat) ^ unat height \<le> 2 ^ 63"
    by (simp only: power_increasing_iff one_less_numeral_iff semiring_norm)
  then have room: "?n + 2 ^ unat height - 1 < 2 ^ 64" using assms(2) by simp
  have "CalcTreeWidth (of_nat (unat height)) (of_nat ?n) = Inr (of_nat (width_nat (unat height) ?n))"
    using h room by (intro CalcTreeWidth_nat) simp_all
  with assms(4) have w: "width = of_nat (width_nat (unat height) ?n)"
    by (simp add: vector_size_def)
  have "width_nat (unat height) ?n < 2 ^ 64"
    using width_nat_le[of "unat height" ?n] assms(2) by simp
  then have "unat width = width_nat (unat height) ?n" by (simp add: w unat_of_nat)
  with assms(5) have "unat pos < width_nat (unat height) ?n" by (simp add: word_less_nat_alt)
  from CalcHash_node_hash[OF assms(1,2) _ this, of H] h
  show ?thesis by simp
qed

theorem CalcHash_in_bounds_witness:
  "[1, 2, 3 :: uint256] \<noteq> [] \<and> length [1, 2, 3 :: uint256] \<le> 2 ^ 63 \<and>
   1 \<le> CalcTreeHeight [1, 2, 3] \<and>
   CalcTreeWidth 1 (vector_size [1, 2, 3 :: uint256]) = Inr 2 \<and> (1 :: uint64) < 2 \<and>
   (\<exists>v. CalcHash sample_hash 1 1 [1, 2, 3] = Inr v)"
proof -
  have a: "[1, 2, 3 :: uint256] \<noteq> []" by simp
  have b: "length [1, 2, 3 :: uint256] \<le> 2 ^ 63" by simp
  have c: "1 \<le> CalcTreeHeight [1, 2, 3]"
    by (simp add: CalcTreeHeight_def vector_size_def height_loop.simps)
  have d: "CalcTreeWidth 1 (vector_size [1, 2, 3 :: uint256]) = Inr 2"
    by (simp add: CalcTreeWidth_def vector_size_def)
  have e: "(1 :: uint64) < 2" by simp
  from CalcHash_in_bounds[OF a b c d e, of sample_hash] a b c d e show ?thesis by blast
qed

text \<open>
  C1. On a non-empty vector, the positional hasher at the height of the tree and position 0
  returns the root that \<^verbatim>\<open>ComputeMerkleRoot\<close> returns (with or without a \<^verbatim>\<open>mutated\<close>
  pointer).
\<close>

theorem CalcHash_root:
  assumes "hashes \<noteq> []" and "length hashes \<le> 2 ^ 63"
  shows "CalcHash H (CalcTreeHeight hashes) 0 hashes = Inr (fst (ComputeMerkleRoot H hashes mutated))"
proof -
  let ?h = "height_nat (length hashes)"
  have "?h \<le> 63" using assms(2) by (rule height_nat_le_63)
  then have h: "?h \<le> 64" by simp
  have w: "0 < width_nat ?h (length hashes)" using assms(1) by (simp add: width_less_iff)
  have "CalcHash H (of_nat ?h) (of_nat 0) hashes = Inr (node_hash H ?h 0 hashes)"
    using assms h w by (rule CalcHash_node_hash)
  moreover have "fst (ComputeMerkleRoot H hashes mutated) = node_hash H ?h 0 hashes"
    using merkle_fold_root[OF assms(1), of H mutated False]
    by (simp add: ComputeMerkleRoot_def split_beta Let_def)
  ultimately show ?thesis by (simp add: CalcTreeHeight_nat[OF assms(2)])
qed

theorem CalcHash_root_witness:
  "[1, 2, 3 :: uint256] \<noteq> [] \<and> length [1, 2, 3 :: uint256] \<le> 2 ^ 63 \<and>
   CalcHash sample_hash (CalcTreeHeight [1, 2, 3]) 0 [1, 2, 3] =
     Inr (fst (ComputeMerkleRoot sample_hash [1, 2, 3] (Some False)))"
  using CalcHash_root[of "[1, 2, 3]" sample_hash "Some False"] by simp

text \<open>
  C6. When the leaves are pairwise distinct (and the hash does not collide on the pairs it
  is given during the run), \<^verbatim>\<open>*mutated\<close> is false after the call, for every length: the
  duplicate appended to an odd-sized level is never compared with its original.
\<close>

theorem ComputeMerkleRoot_not_mutated:
  assumes "distinct hashes" and "collision_free H (hashed_pairs H hashes)"
  shows "snd (ComputeMerkleRoot H hashes (Some b)) = Some False"
  using assms by (rule ComputeMerkleRoot_distinct)

theorem ComputeMerkleRoot_not_mutated_witness:
  "distinct [1, 2, 3 :: uint256] \<and> collision_free sample_hash (hashed_pairs sample_hash [1, 2, 3]) \<and>
   snd (ComputeMerkleRoot sample_hash [1, 2, 3] (Some True)) = Some False"
proof -
  have a: "distinct [1, 2, 3 :: uint256]" by simp
  have b: "collision_free sample_hash (hashed_pairs sample_hash [1, 2, 3])"
    by (simp add: collision_free_def hashed_pairs.simps level_pairs_def merkle_level_def
        SHA256D64_def sample_hash_def Let_def)
  from ComputeMerkleRoot_not_mutated[OF a b, of True] a b show ?thesis by simp
qed

text \<open>
  C2. For six pairwise distinct leaves, the lists \<open>[h1, .., h6]\<close> and
  \<open>[h1, .., h6, h5, h6]\<close> have the same root, \<^verbatim>\<open>*mutated\<close> is false after the first call
  and true after the second (the hash is taken not to collide on the pairs of the first
  run).
\<close>

theorem ComputeMerkleRoot_repeat_flagged:
  assumes "distinct [h1, h2, h3, h4, h5, h6]"
    and "collision_free H (hashed_pairs H [h1, h2, h3, h4, h5, h6])"
  shows "fst (ComputeMerkleRoot H [h1, h2, h3, h4, h5, h6] (Some b)) =
           fst (ComputeMerkleRoot H [h1, h2, h3, h4, h5, h6, h5, h6] (Some b')) \<and>
         snd (ComputeMerkleRoot H [h1, h2, h3, h4, h5, h6] (Some b)) = Some False \<and>
         snd (ComputeMerkleRoot H [h1, h2, h3, h4, h5, h6, h5, h6] (Some b')) = Some True"
proof (intro conjI)
  show "fst (ComputeMerkleRoot H [h1, h2, h3, h4, h5, h6] (Some b)) =
        fst (ComputeMerkleRoot H [h1, h2, h3, h4, h5, h6, h5, h6] (Some b'))"
    by (simp only: root_6 root_8)
  show "snd (ComputeMerkleRoot H [h1, h2, h3, h4, h5, h6] (Some b)) = Some False"
    using assms by (rule ComputeMerkleRoot_distinct)
  show "snd (ComputeMerkleRoot H [h1, h2, h3, h4, h5, h6, h5, h6] (Some b')) = Some True"
    by (rule mutated_repeat)
qed

theorem ComputeMerkleRoot_repeat_flagged_witness:
  "distinct [1, 2, 3, 4, 5, 6 :: uint256] \<and>
   collision_free sample_hash (hashed_pairs sample_hash [1, 2, 3, 4, 5, 6]) \<and>
   fst (ComputeMerkleRoot sample_hash [1, 2, 3, 4, 5, 6] (Some False)) =
     fst (ComputeMerkleRoot sample_hash [1, 2, 3, 4, 5, 6, 5, 6] (Some False)) \<and>
   snd (ComputeMerkleRoot sample_hash [1, 2, 3, 4, 5, 6] (Some False)) = Some False \<and>
   snd (ComputeMerkleRoot sample_hash [1, 2, 3, 4, 5, 6, 5, 6] (Some False)) = Some True"
proof -
  have a: "distinct [1, 2, 3, 4, 5, 6 :: uint256]" by simp
  have b: "collision_free sample_hash (hashed_pairs sample_hash [1, 2, 3, 4, 5, 6])"
    by (simp add: hashed_pairs_6 collision_free_def sample_hash_def)
  from ComputeMerkleRoot_repeat_flagged[OF a b, of False False] a b show ?thesis by simp
qed

text \<open>
  C3. Two vectors of eight leaves that agree everywhere except at index 5: the descent
  takes the right branch at height 2 (index 2), the left branch at height 1 (index 4), and
  the comparison of the leaves at index 4 adds one: the result is 5. The hash is taken not
  to collide on the pairs hashed for the two trees.
\<close>

theorem findDiffLeaf_8_index_5:
  assumes "length hashs1 = 8" and "length hashs2 = 8"
    and "\<forall>i < 8. i \<noteq> 5 \<longrightarrow> hashs1 ! i = hashs2 ! i"
    and "hashs1 ! 5 \<noteq> hashs2 ! 5"
    and "collision_free H (hashed_pairs H hashs1 @ hashed_pairs H hashs2)"
  shows "findDiffLeaf H hashs1 hashs2 = Inr 5"
proof -
  from assms(1) obtain a0 a1 a2 a3 a4 a5 a6 a7
    where a: "hashs1 = [a0, a1, a2, a3, a4, a5, a6, a7]"
    using list_of_length_8 by blast
  from assms(2) obtain b0 b1 b2 b3 b4 b5 b6 b7
    where b: "hashs2 = [b0, b1, b2, b3, b4, b5, b6, b7]"
    using list_of_length_8 by blast
  have "hashs1 ! 0 = hashs2 ! 0" "hashs1 ! 1 = hashs2 ! 1" "hashs1 ! 2 = hashs2 ! 2"
    "hashs1 ! 3 = hashs2 ! 3" "hashs1 ! 4 = hashs2 ! 4" "hashs1 ! 6 = hashs2 ! 6"
    "hashs1 ! 7 = hashs2 ! 7"
    using assms(3) by simp_all
  then have eq: "b0 = a0" "b1 = a1" "b2 = a2" "b3 = a3" "b4 = a4" "b6 = a6" "b7 = a7"
    by (simp_all add: a b)
  have ne: "a5 \<noteq> b5" using assms(4) by (simp add: a b)
  show ?thesis
    using assms(5) unfolding a b eq by (rule findDiffLeaf_8_at_5[OF ne])
qed

theorem findDiffLeaf_8_index_5_witness:
  "length [1, 2, 3, 4, 5, 6, 7, 8 :: uint256] = 8 \<and> length [1, 2, 3, 4, 5, 9, 7, 8 :: uint256] = 8 \<and>
   [1, 2, 3, 4, 5, 6, 7, 8 :: uint256] ! 5 \<noteq> [1, 2, 3, 4, 5, 9, 7, 8] ! 5 \<and>
   collision_free sample_hash (hashed_pairs sample_hash [1, 2, 3, 4, 5, 6, 7, 8] @
                               hashed_pairs sample_hash [1, 2, 3, 4, 5, 9, 7, 8]) \<and>
   findDiffLeaf sample_hash [1, 2, 3, 4, 5, 6, 7, 8] [1, 2, 3, 4, 5, 9, 7, 8] = Inr 5"
proof -
  have a: "length [1, 2, 3, 4, 5, 6, 7, 8 :: uint256] = 8" by simp
  have b: "length [1, 2, 3, 4, 5, 9, 7, 8 :: uint256] = 8" by simp
  have c: "\<forall>i < 8. i \<noteq> 5 \<longrightarrow> [1, 2, 3, 4, 5, 6, 7, 8 :: uint256] ! i = [1, 2, 3, 4, 5, 9, 7, 8] ! i"
    by (simp add: All_less_Suc eval_nat_numeral)
  have d: "[1, 2, 3, 4, 5, 6, 7, 8 :: uint256] ! 5 \<noteq> [1, 2, 3, 4, 5, 9, 7, 8] ! 5" by simp
  have e: "collision_free sample_hash (hashed_pairs sample_hash [1, 2, 3, 4, 5, 6, 7, 8] @
                                       hashed_pairs sample_hash [1, 2, 3, 4, 5, 9, 7, 8])"
    by (simp add: hashed_pairs_8 collision_free_def sample_hash_def)
  from findDiffLeaf_8_index_5[OF a b c d e] a b d e show ?thesis by blast
qed

text \<open>
  C4. The roots are compared before the heights: when the two roots are equal
  \<^verbatim>\<open>findDiffLeaf\<close> returns 0 and the assertion is never reached, also for trees of different
  heights (a leaf that is the hash of two leaves of the other vector, for every hash). The
  assertion fails for every pair whose roots differ and whose heights differ.
\<close>

theorem findDiffLeaf_height_mismatch:
  assumes "fst (ComputeMerkleRoot H hashs1 (Some False)) \<noteq> fst (ComputeMerkleRoot H hashs2 (Some False))"
    and "CalcTreeHeight hashs1 \<noteq> CalcTreeHeight hashs2"
  shows "findDiffLeaf H hashs1 hashs2 = Inl AssertionFailed"
  using assms by (simp add: findDiffLeaf_def)

theorem findDiffLeaf_height_mismatch_witness:
  "fst (ComputeMerkleRoot sample_hash [1, 2] (Some False)) \<noteq>
     fst (ComputeMerkleRoot sample_hash [3] (Some False)) \<and>
   CalcTreeHeight [1, 2] \<noteq> CalcTreeHeight [3] \<and>
   findDiffLeaf sample_hash [1, 2] [3] = Inl AssertionFailed"
proof -
  have a: "fst (ComputeMerkleRoot sample_hash [1, 2] (Some False)) \<noteq>
           fst (ComputeMerkleRoot sample_hash [3] (Some False))"
    by (simp add: ComputeMerkleRoot_def merkle_fold.simps merkle_level_def SHA256D64_def Let_def
        split_beta sample_hash_def)
  have b: "CalcTreeHeight [1, 2] \<noteq> CalcTreeHeight [3]"
    by (simp add: CalcTreeHeight_def vector_size_def height_loop.simps)
  from findDiffLeaf_height_mismatch[OF a b] a b show ?thesis by blast
qed

theorem findDiffLeaf_height_mismatch_counterexample:
  "CalcTreeHeight [1, 1] \<noteq> CalcTreeHeight [39] \<and> findDiffLeaf sample_hash [1, 1] [39] = Inr 0"
  using findDiffLeaf_leaf_is_node[of 1 1 sample_hash] by (simp add: sample_hash_def)

text \<open>
  C5. Two single-leaf vectors with different leaves have tree height 0 and different roots.
  The loop condition \<^verbatim>\<open>--height\<close> then wraps around to \<open>2 ^ 64 - 1\<close>, the body runs, and
  \<^verbatim>\<open>CalcHash\<close> is called at that height: the call does not return 0, it ends in a shift
  by 64 bits (after a recursion of depth \<open>2 ^ 64 - 1\<close>).
\<close>

theorem findDiffLeaf_single_leaf_wraps:
  "findDiffLeaf sample_hash [1] [2] = Inl ShiftOutOfRange"
  by (rule findDiffLeaf_single_leaves) simp

end
